theory Spec2Isabelle
  imports Main "HOL-Library.Word"
begin

section \<open>The gadget command layer (createCommands)\<close>

text \<open>
  The command layer of the gadgets package is the object returned by
  \<^verbatim>\<open>createCommands(observer, getState)\<close>. Its commands read the registry through the
  accessor \<^verbatim>\<open>getState\<close>, call \<^verbatim>\<open>onNext\<close>/\<^verbatim>\<open>onCompleted\<close> on the observer, create
  component items, and mutate the panes of the workspace. All of that is made explicit
  here: a command is a function from a world to a world (and a result).

  JavaScript objects have identity (\<^verbatim>\<open>===\<close>, \<^verbatim>\<open>Array.indexOf\<close>), and the placeholder
  replacement depends on it, so objects live in a heap and are named by their address.
  A new object gets the next free address.
\<close>

type_synonym oid = nat

text \<open>
  A JavaScript value that may be \<^verbatim>\<open>null\<close> or \<^verbatim>\<open>undefined\<close> is an \<open>'v option\<close>;
  \<open>None\<close> stands for both, which the source does not tell apart (\<^verbatim>\<open>== null\<close>).

  A gadget is a component class. The source reads one optional property of it,
  \<^verbatim>\<open>deserializeState\<close> (present when \<^verbatim>\<open>typeof gadget.deserializeState === 'function'\<close>).
  Mounting the class runs its constructor, which computes the component's first state
  from \<^verbatim>\<open>props.initialState\<close>; that is the field \<open>construct\<close>.
\<close>

record 'v gadget =
  deserializeState :: "('v option \<Rightarrow> 'v option) option"
  construct :: "'v option \<Rightarrow> 'v option"

text \<open>The value of \<^verbatim>\<open>getState()\<close>: an immutable map whose key \<^verbatim>\<open>'gadgets'\<close> holds the
  map from gadget identifier to gadget.\<close>

record 'v registryState =
  gadgets :: "string \<rightharpoonup> 'v gadget"

text \<open>
  Modelled from the spec: createComponentItem, the Rx subject and React are not part of
  the source at hand. A component item is the mounted component: its class, the
  \<^verbatim>\<open>initialState\<close> prop it was given, its current \<^verbatim>\<open>state\<close>, and the per-item channel
  \<^verbatim>\<open>state$\<close> (a plain subject): the callbacks subscribed to it, in subscription order, and
  the values pushed to it so far.
\<close>

record 'v component =
  componentClass :: "'v gadget"
  initialState :: "'v option"
  cstate :: "'v option"
  observers :: "nat list"
  emitted :: "'v option list"

text \<open>
  Modelled from the spec: GadgetPlaceholder is not part of the source at hand. A
  placeholder carries a gadget identifier (\<^verbatim>\<open>getGadgetId()\<close>) and the raw initial state
  captured at restoration time (\<^verbatim>\<open>getRawInitialGadgetState()\<close>). Every other pane item
  (a text editor, say) is \<open>OtherItem\<close>.
\<close>

datatype 'v obj =
    GadgetPlaceholder string "'v option"
  | ComponentItem "'v component"
  | OtherItem

datatype 'v action =
    DEACTIVATE
  | REGISTER_GADGET "'v gadget"
  | UNREGISTER_GADGET string

text \<open>The calls the command layer makes on the observer it was given.\<close>

datatype 'v observerCall = OnNext "'v action" | OnCompleted

text \<open>
  The calls the command layer makes on a pane that change it. The pane keeps a log of
  them, each with the item sequence the pane holds when the call returns, so that every
  intermediate item sequence of a command is observable.
\<close>

datatype paneCall = AddItem oid nat | DestroyItem oid | SetActiveItem "oid option"

record pane =
  items :: "oid list"
  activeItem :: "oid option"
  mutations :: "(paneCall \<times> oid list) list"

record 'v world =
  heap :: "'v obj list"
  panes :: "pane list"
  observerCalls :: "'v observerCall list"
  callbackCalls :: "nat list"
  openCalls :: "(string \<times> bool) list"

datatype error = PaneItemNotAnObject

record parsedUri =
  gadgetId :: string

text \<open>\<^verbatim>\<open>Array.prototype.indexOf\<close> and \<^verbatim>\<open>String.prototype.indexOf\<close> with a one-character
  needle: the first position, \<open>None\<close> for \<^verbatim>\<open>-1\<close>.\<close>

fun indexOf :: "'a list \<Rightarrow> 'a \<Rightarrow> nat option" where
  "indexOf [] c = None"
| "indexOf (x # xs) c = (if x = c then Some 0 else map_option Suc (indexOf xs c))"

definition lookup :: "'v world \<Rightarrow> oid \<Rightarrow> 'v obj option" where
  "lookup w x = (if x < length (heap w) then Some (heap w ! x) else None)"

subsection \<open>The host's pane\<close>

text \<open>
  Modelled from the spec: the pane is the host editor's (section 6: \<^verbatim>\<open>getItems\<close>,
  \<^verbatim>\<open>addItem(item, index)\<close>, \<^verbatim>\<open>destroyItem(item)\<close>, \<^verbatim>\<open>getActiveItem\<close>,
  \<^verbatim>\<open>setActiveItem(item)\<close>), with the behaviour of Atom's pane: \<^verbatim>\<open>getItems\<close> returns a
  copy; \<^verbatim>\<open>addItem\<close> refuses a value that is not an object, ignores an item the pane
  already holds, splices the item in at the index and makes it active when the pane has
  no active item; \<^verbatim>\<open>destroyItem\<close> of the active item first activates a neighbour (the
  next item when the item is first, the previous one otherwise; nothing when it is the
  only item) and then removes the item.
\<close>

definition getItems :: "pane \<Rightarrow> oid list" where
  "getItems p = items p"

definition getActiveItem :: "pane \<Rightarrow> oid option" where
  "getActiveItem p = activeItem p"

definition getActiveItemIndex :: "pane \<Rightarrow> int" where
  "getActiveItemIndex p =
     (case activeItem p of
        None \<Rightarrow> - 1
      | Some a \<Rightarrow> (case indexOf (items p) a of None \<Rightarrow> - 1 | Some i \<Rightarrow> int i))"

definition activateItemAtIndex :: "int \<Rightarrow> pane \<Rightarrow> pane" where
  "activateItemAtIndex i p =
     (if 0 \<le> i \<and> i < int (length (items p))
      then p\<lparr>activeItem := Some (items p ! nat i)\<rparr> else p)"

definition activateNextItem :: "pane \<Rightarrow> pane" where
  "activateNextItem p =
     (let index = getActiveItemIndex p
      in if index < int (length (items p)) - 1 then activateItemAtIndex (index + 1) p
         else activateItemAtIndex 0 p)"

definition activatePreviousItem :: "pane \<Rightarrow> pane" where
  "activatePreviousItem p =
     (let index = getActiveItemIndex p
      in if index > 0 then activateItemAtIndex (index - 1) p
         else activateItemAtIndex (int (length (items p)) - 1) p)"

definition addItem :: "oid option \<Rightarrow> nat \<Rightarrow> pane \<Rightarrow> error + pane" where
  "addItem item index p =
     (case item of
        None \<Rightarrow> Inl PaneItemNotAnObject
      | Some it \<Rightarrow>
          let p1 = (if it \<in> set (items p) then p
                    else p\<lparr>items := take index (items p) @ it # drop index (items p),
                           activeItem := (case activeItem p of
                                            None \<Rightarrow> Some it
                                          | Some a \<Rightarrow> Some a)\<rparr>)
          in Inr (p1\<lparr>mutations := mutations p1 @ [(AddItem it index, items p1)]\<rparr>))"

definition destroyItem :: "oid \<Rightarrow> pane \<Rightarrow> pane" where
  "destroyItem it p =
     (let p1 = (case indexOf (items p) it of
                  None \<Rightarrow> p
                | Some index \<Rightarrow>
                    let p0 = (if activeItem p = Some it then
                                (if length (items p) = 1 then p\<lparr>activeItem := None\<rparr>
                                 else if index = 0 then activateNextItem p
                                 else activatePreviousItem p)
                              else p)
                    in p0\<lparr>items := take index (items p0) @ drop (Suc index) (items p0)\<rparr>)
      in p1\<lparr>mutations := mutations p1 @ [(DestroyItem it, items p1)]\<rparr>)"

definition setActiveItem :: "oid option \<Rightarrow> pane \<Rightarrow> pane" where
  "setActiveItem item p =
     p\<lparr>activeItem := item,
       mutations := mutations p @ [(SetActiveItem item, items p)]\<rparr>"

subsection \<open>The commands\<close>


text \<open>
  \<^verbatim>\<open>createPaneItem(gadgetId, initialState)\<close>: \<open>None\<close> is the bare \<^verbatim>\<open>return\<close>. Otherwise
  a new subject \<^verbatim>\<open>state$\<close> without observers and the mounted component are created; the
  result is the component.
\<close>

definition createPaneItem ::
  "'v registryState \<Rightarrow> string \<Rightarrow> 'v option \<Rightarrow> 'v world \<Rightarrow> oid option \<times> 'v world" where
  "createPaneItem st gid initState w =
     (case gadgets st gid of
        None \<Rightarrow> (None, w)
      | Some gadget \<Rightarrow>
          let component = \<lparr>componentClass = gadget, initialState = initState,
                           cstate = construct gadget initState,
                           observers = [], emitted = []\<rparr>
          in (Some (length (heap w)), w\<lparr>heap := heap w @ [ComponentItem component]\<rparr>))"

text \<open>
  The two capabilities handed to the component. \<^verbatim>\<open>notify = () => state$.onNext(component.state)\<close>:
  a plain subject passes the value to every current observer, in subscription order; each
  observer here is the wrapper \<^verbatim>\<open>() => cb()\<close>, which calls the callback.
  \<^verbatim>\<open>subscribe = cb => state$.forEach(() => cb())\<close> adds one observer.
\<close>

definition notify :: "oid \<Rightarrow> 'v world \<Rightarrow> 'v world" where
  "notify x w =
     (case lookup w x of
        Some (ComponentItem c) \<Rightarrow>
          w\<lparr>heap := (heap w)[x := ComponentItem (c\<lparr>emitted := emitted c @ [cstate c]\<rparr>)],
            callbackCalls := callbackCalls w @ observers c\<rparr>
      | _ \<Rightarrow> w)"

definition subscribe :: "oid \<Rightarrow> nat \<Rightarrow> 'v world \<Rightarrow> 'v world" where
  "subscribe x cb w =
     (case lookup w x of
        Some (ComponentItem c) \<Rightarrow>
          w\<lparr>heap := (heap w)[x := ComponentItem (c\<lparr>observers := observers c @ [cb]\<rparr>)]\<rparr>
      | _ \<Rightarrow> w)"

text \<open>\<^verbatim>\<open>openUri(uri)\<close>; GadgetUri.parse is a parameter. The call of createPaneItem passes
  no initial state.\<close>

definition openUri ::
  "(string \<Rightarrow> parsedUri option) \<Rightarrow> 'v registryState \<Rightarrow> string \<Rightarrow> 'v world
     \<Rightarrow> oid option \<times> 'v world" where
  "openUri parse st uri w =
     (case parse uri of
        None \<Rightarrow> (None, w)
      | Some parsed \<Rightarrow> createPaneItem st (gadgetId parsed) None w)"




text \<open>
  The body of the loop of \<^verbatim>\<open>replacePlaceholders\<close> for a placeholder whose gadget is
  registered (from \<^verbatim>\<open>const rawInitialGadgetState\<close> to the end of the loop body), on the
  pane number \<open>k\<close>.
\<close>

definition replaceItem ::
  "'v registryState \<Rightarrow> nat \<Rightarrow> nat \<Rightarrow> oid \<Rightarrow> string \<Rightarrow> 'v gadget \<Rightarrow> 'v option \<Rightarrow> 'v world
     \<Rightarrow> error + 'v world" where
  "replaceItem st k index item gid gadget rawInitialGadgetState w =
     (let initState = (case deserializeState gadget of
                         Some f \<Rightarrow> f rawInitialGadgetState
                       | None \<Rightarrow> rawInitialGadgetState);
          (realItem, w1) = createPaneItem st gid initState w;
          p = panes w1 ! k;
          isActive = (getActiveItem p = Some item)
      in case addItem realItem (index + 1) p of
           Inl e \<Rightarrow> Inl e
         | Inr p1 \<Rightarrow>
             let p2 = destroyItem item p1;
                 p3 = (if isActive then setActiveItem realItem p2 else p2)
             in Inr (w1\<lparr>panes := (panes w1)[k := p3]\<rparr>))"

text \<open>
  The loop \<^verbatim>\<open>for (let index = items.length - 1; index >= 0; index--)\<close> over the copy
  \<open>its\<close> of the pane's items; the counter \<open>n\<close> is \<^verbatim>\<open>index + 1\<close>.
\<close>

fun replaceLoop ::
  "'v registryState \<Rightarrow> nat \<Rightarrow> oid list \<Rightarrow> nat \<Rightarrow> 'v world \<Rightarrow> error + 'v world" where
  "replaceLoop st k its 0 w = Inr w"
| "replaceLoop st k its (Suc index) w =
     (let item = its ! index
      in case lookup w item of
           Some (GadgetPlaceholder gid raw) \<Rightarrow>
             (case gadgets st gid of
                None \<Rightarrow> replaceLoop st k its index w
              | Some gadget \<Rightarrow>
                  (case replaceItem st k index item gid gadget raw w of
                     Inl e \<Rightarrow> Inl e
                   | Inr w' \<Rightarrow> replaceLoop st k its index w'))
         | _ \<Rightarrow> replaceLoop st k its index w)"

fun forEachPane ::
  "'v registryState \<Rightarrow> nat list \<Rightarrow> 'v world \<Rightarrow> error + 'v world" where
  "forEachPane st [] w = Inr w"
| "forEachPane st (k # ks) w =
     (let its = getItems (panes w ! k)
      in case replaceLoop st k its (length its) w of
           Inl e \<Rightarrow> Inl e
         | Inr w' \<Rightarrow> forEachPane st ks w')"

definition replacePlaceholders :: "'v registryState \<Rightarrow> 'v world \<Rightarrow> error + 'v world" where
  "replacePlaceholders st w = forEachPane st [0 ..< length (panes w)] w"

subsection \<open>Well-formed worlds and the relation between a pane before and after\<close>

text \<open>
  In a running editor every pane item is an allocated object, and a pane holds an item
  at most once.
\<close>

definition wf_pane :: "nat \<Rightarrow> pane \<Rightarrow> bool" where
  "wf_pane n p = (distinct (items p) \<and> (\<forall>x \<in> set (items p). x < n))"

definition wf_world :: "'v world \<Rightarrow> bool" where
  "wf_world w = (\<forall>p \<in> set (panes w). wf_pane (length (heap w)) p)"

text \<open>A placeholder whose gadget is registered in the state \<open>st\<close>.\<close>

definition resolvable :: "'v registryState \<Rightarrow> 'v obj \<Rightarrow> bool" where
  "resolvable st ob =
     (case ob of
        GadgetPlaceholder gid raw \<Rightarrow> gadgets st gid \<noteq> None
      | _ \<Rightarrow> False)"

text \<open>The component that \<^verbatim>\<open>replacePlaceholders\<close> is to create for a placeholder.\<close>

definition realItemFor :: "'v gadget \<Rightarrow> 'v option \<Rightarrow> 'v obj" where
  "realItemFor g raw =
     (let initState = (case deserializeState g of Some f \<Rightarrow> f raw | None \<Rightarrow> raw)
      in ComponentItem \<lparr>componentClass = g, initialState = initState,
                        cstate = construct g initState, observers = [], emitted = []\<rparr>)"

text \<open>
  \<open>item_rel st h h' x x'\<close>: the item \<open>x'\<close> stands after the command where \<open>x\<close> stood
  before it. A placeholder of a registered gadget has given way to a new component
  item; every other item is still there.
\<close>

definition item_rel :: "'v registryState \<Rightarrow> 'v obj list \<Rightarrow> 'v obj list \<Rightarrow> oid \<Rightarrow> oid \<Rightarrow> bool" where
  "item_rel st h h' x x' =
     (case h ! x of
        GadgetPlaceholder gid raw \<Rightarrow>
          (case gadgets st gid of
             None \<Rightarrow> x' = x
           | Some g \<Rightarrow> length h \<le> x' \<and> x' < length h' \<and> h' ! x' = realItemFor g raw)
      | _ \<Rightarrow> x' = x)"

text \<open>A log entry of a pane that held \<open>n\<close> items when the command began: the pane is
  not empty, and holds one item more after an \<^verbatim>\<open>addItem\<close> only.\<close>

definition entry_ok :: "nat \<Rightarrow> paneCall \<times> oid list \<Rightarrow> bool" where
  "entry_ok n e =
     (snd e \<noteq> []
      \<and> (case fst e of
           AddItem r i \<Rightarrow> length (snd e) = Suc n
         | DestroyItem x \<Rightarrow> length (snd e) = n
         | SetActiveItem r \<Rightarrow> length (snd e) = n))"

definition pane_rel :: "'v registryState \<Rightarrow> 'v obj list \<Rightarrow> 'v obj list \<Rightarrow> pane \<Rightarrow> pane \<Rightarrow> bool" where
  "pane_rel st h h' p p' =
     (length (items p') = length (items p)
      \<and> (\<forall>i < length (items p). item_rel st h h' (items p ! i) (items p' ! i))
      \<and> (\<forall>i < length (items p).
            activeItem p = Some (items p ! i) \<longrightarrow> activeItem p' = Some (items p' ! i))
      \<and> (\<exists>es. mutations p' = mutations p @ es \<and> (\<forall>e \<in> set es. entry_ok (length (items p)) e)))"

text \<open>
  What the loop body does to a pane, in one step: the pane \<open>p\<close> after the placeholder
  at \<open>index\<close> has given way to the new item \<open>r\<close>. The new item stands where the
  placeholder stood; it is active when the placeholder was (or when the pane had no
  active item, which \<^verbatim>\<open>addItem\<close> then makes it); the log gains the \<^verbatim>\<open>addItem\<close>, the
  \<^verbatim>\<open>destroyItem\<close> and, for an active placeholder, the \<^verbatim>\<open>setActiveItem\<close>.
\<close>

definition swapped :: "pane \<Rightarrow> nat \<Rightarrow> oid \<Rightarrow> pane" where
  "swapped p index r =
     (let its = items p; item = its ! index
      in p\<lparr>items := its[index := r],
           activeItem := (if activeItem p = Some item \<or> activeItem p = None then Some r
                          else activeItem p),
           mutations := mutations p
             @ [(AddItem r (Suc index), take (Suc index) its @ r # drop (Suc index) its),
                (DestroyItem item, its[index := r])]
             @ (if activeItem p = Some item then [(SetActiveItem (Some r), its[index := r])] else [])\<rparr>)"

text \<open>
  The invariant of the loop over one pane, with \<open>n\<close> positions still to visit: the
  positions below \<open>n\<close> are related by \<open>item_rel\<close>, the others are as they were.
\<close>

definition pane_rel_upto ::
  "'v registryState \<Rightarrow> nat \<Rightarrow> 'v obj list \<Rightarrow> 'v obj list \<Rightarrow> pane \<Rightarrow> pane \<Rightarrow> bool" where
  "pane_rel_upto st n h h' p p' =
     (length (items p') = length (items p)
      \<and> (\<forall>i < length (items p).
            if i < n then item_rel st h h' (items p ! i) (items p' ! i)
            else items p' ! i = items p ! i)
      \<and> (\<forall>i < length (items p).
            activeItem p = Some (items p ! i) \<longrightarrow> activeItem p' = Some (items p' ! i))
      \<and> (\<exists>es. mutations p' = mutations p @ es \<and> (\<forall>e \<in> set es. entry_ok (length (items p)) e)))"

text \<open>What a run of the loop over the pane number \<open>k\<close> leaves alone.\<close>

definition frame :: "nat \<Rightarrow> 'v world \<Rightarrow> 'v world \<Rightarrow> bool" where
  "frame k w w' =
     ((\<exists>ext. heap w' = heap w @ ext)
      \<and> length (panes w') = length (panes w)
      \<and> (\<forall>j < length (panes w). j \<noteq> k \<longrightarrow> panes w' ! j = panes w ! j)
      \<and> observerCalls w' = observerCalls w
      \<and> callbackCalls w' = callbackCalls w
      \<and> openCalls w' = openCalls w)"

text \<open>\<^verbatim>\<open>item instanceof GadgetPlaceholder\<close>.\<close>

definition isPlaceholder :: "'v obj \<Rightarrow> bool" where
  "isPlaceholder ob = (case ob of GadgetPlaceholder gid raw \<Rightarrow> True | _ \<Rightarrow> False)"

subsection \<open>Sample data\<close>

text \<open>
  Two gadgets, one with a \<^verbatim>\<open>deserializeState\<close> hook and one without; a registry that
  holds both; a workspace of two panes restored before the gadgets were registered; and
  a URI parser.
\<close>

definition counterGadget :: "string gadget" where
  "counterGadget =
     \<lparr>deserializeState =
        Some (\<lambda>raw. case raw of None \<Rightarrow> None | Some s \<Rightarrow> Some (''count:'' @ s)),
      construct = (\<lambda>i. case i of None \<Rightarrow> Some ''count:1'' | Some s \<Rightarrow> Some s)\<rparr>"

definition plainGadget :: "string gadget" where
  "plainGadget = \<lparr>deserializeState = None, construct = (\<lambda>i. i)\<rparr>"

definition sample_state :: "string registryState" where
  "sample_state =
     \<lparr>gadgets = [''counter'' \<mapsto> counterGadget, ''plain'' \<mapsto> plainGadget]\<rparr>"

definition sample_world :: "string world" where
  "sample_world =
     \<lparr>heap = [GadgetPlaceholder ''counter'' (Some ''7''), OtherItem,
              GadgetPlaceholder ''missing'' None, GadgetPlaceholder ''plain'' None],
      panes = [\<lparr>items = [0, 1], activeItem = Some 0, mutations = []\<rparr>,
               \<lparr>items = [2, 3], activeItem = Some 2, mutations = []\<rparr>],
      observerCalls = [], callbackCalls = [], openCalls = []\<rparr>"

definition sample_parse :: "string \<Rightarrow> parsedUri option" where
  "sample_parse uri =
     (if take 9 uri = ''gadget://'' then Some \<lparr>gadgetId = drop 9 uri\<rparr> else None)"

text \<open>The workspace after \<^verbatim>\<open>replacePlaceholders\<close> in the sample state, and a component
  item with two subscribers.\<close>

definition sample_result :: "string world" where
  "sample_result =
     \<lparr>heap = [GadgetPlaceholder ''counter'' (Some ''7''), OtherItem,
              GadgetPlaceholder ''missing'' None, GadgetPlaceholder ''plain'' None,
              realItemFor counterGadget (Some ''7''), realItemFor plainGadget None],
      panes = [\<lparr>items = [4, 1], activeItem = Some 4,
                 mutations = [(AddItem 4 1, [0, 4, 1]), (DestroyItem 0, [4, 1]),
                              (SetActiveItem (Some 4), [4, 1])]\<rparr>,
               \<lparr>items = [2, 5], activeItem = Some 2,
                 mutations = [(AddItem 5 2, [2, 3, 5]), (DestroyItem 3, [2, 5])]\<rparr>],
      observerCalls = [], callbackCalls = [], openCalls = []\<rparr>"

definition subscribed_world :: "string world" where
  "subscribed_world =
     subscribe 4 11 (subscribe 4 10 (snd (createPaneItem sample_state ''plain'' None sample_world)))"

section \<open>The outline's type labels (tokenizeType)\<close>

text \<open>
  A JavaScript string is a sequence of 16-bit code units; \<^verbatim>\<open>length\<close>, \<^verbatim>\<open>indexOf\<close>
  and \<^verbatim>\<open>substring\<close> count code units.
\<close>

type_synonym jsstring = "16 word list"

definition js :: "string \<Rightarrow> jsstring" where
  "js s = map of_char s"

text \<open>\<^verbatim>\<open>String.prototype.lastIndexOf\<close> with a one-character needle.\<close>

fun lastIndexOf :: "'a list \<Rightarrow> 'a \<Rightarrow> nat option" where
  "lastIndexOf [] c = None"
| "lastIndexOf (x # xs) c =
     (case lastIndexOf xs c of
        Some i \<Rightarrow> Some (Suc i)
      | None \<Rightarrow> (if x = c then Some 0 else None))"

text \<open>\<^verbatim>\<open>s.substring(a, b)\<close> clamps both indices to the length and swaps them when
  \<open>a > b\<close>; \<^verbatim>\<open>s.substring(a)\<close> runs to the end.\<close>

definition substring :: "'a list \<Rightarrow> nat \<Rightarrow> nat \<Rightarrow> 'a list" where
  "substring s a b =
     (let a' = min a (length s); b' = min b (length s);
          lo = min a' b'; hi = max a' b'
      in take (hi - lo) (drop lo s))"

definition substringFrom :: "'a list \<Rightarrow> nat \<Rightarrow> 'a list" where
  "substringFrom s a = substring s a (length s)"

text \<open>
  Modelled from the spec: the token constructors of nuclide-tokenized-text are not part
  of the source at hand. A token is a kind and a text; \<^verbatim>\<open>plain(v)\<close> and \<^verbatim>\<open>string(v)\<close>
  build the tokens of kind plain and string.
\<close>

datatype tokenKind = Keyword | ClassName | Method | Param | Whitespace | StringKind | Plain

record textToken =
  kind :: tokenKind
  tvalue :: jsstring

definition plain :: "jsstring \<Rightarrow> textToken" where
  "plain v = \<lparr>kind = Plain, tvalue = v\<rparr>"

definition string_token :: "jsstring \<Rightarrow> textToken" where
  "string_token v = \<lparr>kind = StringKind, tvalue = v\<rparr>"

definition LONG_TYPE_LENGTH :: nat where
  "LONG_TYPE_LENGTH = 50"

definition LT_CHAR :: "16 word" where
  "LT_CHAR = of_char (CHR ''<'')"

definition GT_CHAR :: "16 word" where
  "GT_CHAR = of_char (CHR ''>'')"

definition tokenizeType :: "jsstring \<Rightarrow> textToken list" where
  "tokenizeType type =
     (if length type > LONG_TYPE_LENGTH then
        (case indexOf type LT_CHAR of
           None \<Rightarrow> [plain type]
         | Some openIndex \<Rightarrow>
             (case lastIndexOf type GT_CHAR of
                None \<Rightarrow> [plain type]
              | Some closeIndex \<Rightarrow>
                  [plain (substring type 0 (openIndex + 1)),
                   string_token (js ''...''),
                   plain (substringFrom type closeIndex)]))
      else [plain type])"

text \<open>Sample types: a long template type, a short one, and long ones without brackets.\<close>

definition long_template_type :: jsstring where
  "long_template_type = js ''std::map<std::string, std::vector<std::pair<int, int>>>''"

definition short_type :: jsstring where
  "short_type = js ''std::vector<int>''"

definition long_plain_type :: jsstring where
  "long_plain_type = js ''const volatile unsigned long long int * const * const''"

section \<open>Properties of replacePlaceholders\<close>

text \<open>
  The proofs below follow the code: what \<^verbatim>\<open>addItem\<close> then \<^verbatim>\<open>destroyItem\<close> do to a
  pane, what the loop body does to the world, the invariant of the loop over one pane,
  and the loop over the panes.
\<close>

lemmas sample_defs = sample_world_def sample_state_def counterGadget_def plainGadget_def
  sample_result_def

lemmas run_defs = replacePlaceholders_def upt_rec Let_def getItems_def eval_nat_numeral
  lookup_def replaceItem_def createPaneItem_def addItem_def destroyItem_def setActiveItem_def
  getActiveItem_def activateNextItem_def activatePreviousItem_def activateItemAtIndex_def
  getActiveItemIndex_def realItemFor_def

subsection \<open>Insert after, then remove\<close>

lemma indexOf_distinct: "distinct xs \<Longrightarrow> i < length xs \<Longrightarrow> indexOf xs (xs ! i) = Some i"
proof (induction xs arbitrary: i)
  case Nil then show ?case by simp
next
  case (Cons x xs)
  then show ?case by (cases i) auto
qed

lemma indexOf_insert_after:
  assumes "distinct xs" "i < length xs" "r \<notin> set xs"
  shows "indexOf (take (Suc i) xs @ r # drop (Suc i) xs) (xs ! i) = Some i"
proof -
  let ?ys = "take (Suc i) xs @ r # drop (Suc i) xs"
  have d: "distinct ?ys"
    using assms by (metis append_take_drop_id distinct.simps(2) distinct_append
        disjoint_insert(1) list.simps(15) set_append Un_iff)
  have "?ys ! i = xs ! i" using assms by (simp add: nth_append)
  moreover have "i < length ?ys" using assms by simp
  ultimately show ?thesis using indexOf_distinct [OF d, of i] by simp
qed

lemma remove_after_insert:
  assumes "i < length xs"
  shows "take i (take (Suc i) xs @ r # drop (Suc i) xs)
           @ drop (Suc i) (take (Suc i) xs @ r # drop (Suc i) xs) = xs[i := r]"
  using assms by (simp add: upd_conv_take_nth_drop min_def)

lemma addItem_fresh:
  assumes "r \<notin> set (items p)"
  shows "addItem (Some r) idx p =
     Inr (p\<lparr>items := take idx (items p) @ r # drop idx (items p),
            activeItem := (case activeItem p of None \<Rightarrow> Some r | Some a \<Rightarrow> Some a),
            mutations := mutations p @ [(AddItem r idx, take idx (items p) @ r # drop idx (items p))]\<rparr>)"
  using assms by (simp add: addItem_def Let_def)

lemma activate_frame:
  "items (activateNextItem q) = items q" "mutations (activateNextItem q) = mutations q"
  "items (activatePreviousItem q) = items q" "mutations (activatePreviousItem q) = mutations q"
  by (simp_all add: activateNextItem_def activatePreviousItem_def activateItemAtIndex_def Let_def)

lemma destroyItem_items:
  "indexOf (items q) it = Some idx \<Longrightarrow>
   items (destroyItem it q) = take idx (items q) @ drop (Suc idx) (items q)"
  by (simp add: destroyItem_def Let_def activate_frame)

lemma destroyItem_mutations:
  "mutations (destroyItem it q) = mutations q @ [(DestroyItem it, items (destroyItem it q))]"
  by (simp add: destroyItem_def Let_def activate_frame split: option.splits)

lemma destroyItem_active:
  "activeItem q \<noteq> Some it \<Longrightarrow> activeItem (destroyItem it q) = activeItem q"
  by (simp add: destroyItem_def Let_def split: option.splits)

lemma pane_swap:
  assumes d: "distinct (items p)" and i: "index < length (items p)" and r: "r \<notin> set (items p)"
  shows "\<exists>p1. addItem (Some r) (index + 1) p = Inr p1
           \<and> (if getActiveItem p = Some (items p ! index)
               then setActiveItem (Some r) (destroyItem (items p ! index) p1)
               else destroyItem (items p ! index) p1) = swapped p index r"
proof -
  let ?it = "items p ! index"
  let ?ys = "take (Suc index) (items p) @ r # drop (Suc index) (items p)"
  let ?p1 = "p\<lparr>items := ?ys,
            activeItem := (case activeItem p of None \<Rightarrow> Some r | Some a \<Rightarrow> Some a),
            mutations := mutations p @ [(AddItem r (Suc index), ?ys)]\<rparr>"
  let ?p2 = "destroyItem ?it ?p1"
  have add: "addItem (Some r) (index + 1) p = Inr ?p1"
    using addItem_fresh [OF r, of "index + 1"] by simp
  have io: "indexOf (items ?p1) ?it = Some index"
    using indexOf_insert_after [OF d i r] by simp
  have ne: "?it \<noteq> r" using i r by (metis nth_mem)
  have its2: "items ?p2 = (items p)[index := r]"
    using destroyItem_items [OF io] remove_after_insert [OF i, of r] by simp
  have mut2: "mutations ?p2 = mutations p @ [(AddItem r (Suc index), ?ys),
                (DestroyItem ?it, (items p)[index := r])]"
    using destroyItem_mutations [of ?it ?p1] its2 by simp
  have "(if getActiveItem p = Some ?it then setActiveItem (Some r) ?p2 else ?p2) = swapped p index r"
  proof (cases "activeItem p = Some ?it")
    case True
    then show ?thesis
      using its2 mut2 by (simp add: getActiveItem_def setActiveItem_def swapped_def Let_def)
  next
    case False
    then have "activeItem ?p1 \<noteq> Some ?it" using ne by (auto split: option.splits)
    then have "activeItem ?p2 = activeItem ?p1" by (rule destroyItem_active)
    with False show ?thesis
      using its2 mut2 by (auto simp: getActiveItem_def swapped_def Let_def split: option.splits)
  qed
  with add show ?thesis by blast
qed

lemma swapped_simps:
  "items (swapped p n r) = (items p)[n := r]"
  "activeItem (swapped p n r) =
     (if activeItem p = Some (items p ! n) \<or> activeItem p = None then Some r else activeItem p)"
  "mutations (swapped p n r) = mutations p
             @ [(AddItem r (Suc n), take (Suc n) (items p) @ r # drop (Suc n) (items p)),
                (DestroyItem (items p ! n), (items p)[n := r])]
             @ (if activeItem p = Some (items p ! n) then [(SetActiveItem (Some r), (items p)[n := r])] else [])"
  by (simp_all add: swapped_def Let_def)

subsection \<open>The loop invariant\<close>

lemma pane_rel_upto_0: "pane_rel_upto st 0 h h p p"
  by (simp add: pane_rel_upto_def)

lemma pane_rel_upto_skip:
  assumes "pane_rel_upto st n h h' p p'" "\<not> resolvable st (h ! (items p ! n))"
  shows "pane_rel_upto st (Suc n) h h' p p'"
proof -
  have "item_rel st h h' (items p ! n) (items p ! n)"
    using assms(2) by (auto simp: item_rel_def resolvable_def split: obj.splits option.splits)
  then show ?thesis
    using assms(1) unfolding pane_rel_upto_def
    by (auto simp: less_Suc_eq)
qed

lemma item_rel_mono:
  assumes "item_rel st (h @ e) h' x x'" "x < length h"
  shows "item_rel st h h' x x'"
  using assms by (auto simp: item_rel_def nth_append split: obj.splits option.splits)

lemma pane_rel_upto_swap:
  assumes d: "distinct (items p)" and b: "\<forall>x \<in> set (items p). x < length h"
    and n: "n < length (items p)"
    and ph: "h ! (items p ! n) = GadgetPlaceholder gid raw" and g: "gadgets st gid = Some g"
    and rel: "pane_rel_upto st n (h @ [realItemFor g raw]) (h @ realItemFor g raw # ext)
                (swapped p n (length h)) p'"
  shows "pane_rel_upto st (Suc n) h (h @ realItemFor g raw # ext) p p'"
proof -
  let ?h' = "h @ realItemFor g raw # ext"
  let ?q = "swapped p n (length h)"
  have lq: "length (items ?q) = length (items p)" by (simp add: swapped_simps)
  from rel [unfolded pane_rel_upto_def]
  have len': "length (items p') = length (items ?q)"
    and itsq: "\<forall>i < length (items ?q).
            if i < n then item_rel st (h @ [realItemFor g raw]) ?h' (items ?q ! i) (items p' ! i)
            else items p' ! i = items ?q ! i"
    and actq: "\<forall>i < length (items ?q).
            activeItem ?q = Some (items ?q ! i) \<longrightarrow> activeItem p' = Some (items p' ! i)"
    and mutq: "\<exists>es. mutations p' = mutations ?q @ es \<and> (\<forall>e \<in> set es. entry_ok (length (items ?q)) e)"
    by blast+
  have len: "length (items p') = length (items p)" using len' lq by simp
  have its: "\<forall>i < length (items p).
            if i < Suc n then item_rel st h ?h' (items p ! i) (items p' ! i)
            else items p' ! i = items p ! i"
  proof (intro allI impI)
    fix i assume i: "i < length (items p)"
    from itsq i lq have ri: "if i < n then item_rel st (h @ [realItemFor g raw]) ?h' (items ?q ! i) (items p' ! i)
            else items p' ! i = items ?q ! i" by simp
    show "if i < Suc n then item_rel st h ?h' (items p ! i) (items p' ! i)
            else items p' ! i = items p ! i"
    proof (cases "i < n")
      case True
      with ri have "item_rel st (h @ [realItemFor g raw]) ?h' (items p ! i) (items p' ! i)"
        by (simp add: swapped_simps)
      moreover have "items p ! i < length h" using b i by simp
      ultimately show ?thesis using True item_rel_mono by fastforce
    next
      case False
      show ?thesis
      proof (cases "i = n")
        case True
        with ri n have "items p' ! n = length h" by (simp add: swapped_simps)
        then show ?thesis using True ph g by (simp add: item_rel_def)
      next
        case ne: False
        with False ri show ?thesis by (simp add: swapped_simps)
      qed
    qed
  qed
  have act: "\<forall>i < length (items p).
            activeItem p = Some (items p ! i) \<longrightarrow> activeItem p' = Some (items p' ! i)"
  proof (intro allI impI)
    fix i assume i: "i < length (items p)" and a: "activeItem p = Some (items p ! i)"
    from actq i lq have ra: "activeItem ?q = Some (items ?q ! i)
        \<longrightarrow> activeItem p' = Some (items p' ! i)"
      by simp
    show "activeItem p' = Some (items p' ! i)"
    proof (cases "i = n")
      case True
      then show ?thesis using ra a n by (simp add: swapped_simps)
    next
      case False
      then have "items p ! i \<noteq> items p ! n" using d i n by (simp add: nth_eq_iff_index_eq)
      then show ?thesis using ra a False by (simp add: swapped_simps)
    qed
  qed
  from mutq lq obtain es where es: "mutations p' = mutations ?q @ es"
      "\<forall>e \<in> set es. entry_ok (length (items p)) e"
    by auto
  have mut: "\<exists>es. mutations p' = mutations p @ es \<and> (\<forall>e \<in> set es. entry_ok (length (items p)) e)"
  proof (intro exI conjI)
    show "mutations p' = mutations p @ (([(AddItem (length h) (Suc n), take (Suc n) (items p) @ length h # drop (Suc n) (items p)),
                (DestroyItem (items p ! n), (items p)[n := length h])]
             @ (if activeItem p = Some (items p ! n) then [(SetActiveItem (Some (length h)), (items p)[n := length h])] else [])) @ es)"
      using es(1) by (simp add: swapped_simps)
    show "\<forall>e\<in>set (([(AddItem (length h) (Suc n), take (Suc n) (items p) @ length h # drop (Suc n) (items p)),
                (DestroyItem (items p ! n), (items p)[n := length h])]
             @ (if activeItem p = Some (items p ! n) then [(SetActiveItem (Some (length h)), (items p)[n := length h])] else [])) @ es). entry_ok (length (items p)) e"
      using es(2) n by (auto simp: entry_ok_def)
  qed
  show ?thesis unfolding pane_rel_upto_def using len its act mut by blast
qed

lemma wf_world_nth: "wf_world w \<Longrightarrow> k < length (panes w) \<Longrightarrow> wf_pane (length (heap w)) (panes w ! k)"
  by (simp add: wf_world_def)

lemma createPaneItem_Some:
  "gadgets st gid = Some g \<Longrightarrow>
   createPaneItem st gid init w =
     (Some (length (heap w)),
      w\<lparr>heap := heap w @ [ComponentItem \<lparr>componentClass = g, initialState = init,
                    cstate = construct g init, observers = [], emitted = []\<rparr>]\<rparr>)"
  by (simp add: createPaneItem_def)

lemma replaceItem_eq:
  assumes wf: "wf_world w" and k: "k < length (panes w)" and g: "gadgets st gid = Some g"
    and i: "index < length (items (panes w ! k))"
  shows "replaceItem st k index (items (panes w ! k) ! index) gid g raw w =
     Inr (w\<lparr>heap := heap w @ [realItemFor g raw],
            panes := (panes w)[k := swapped (panes w ! k) index (length (heap w))]\<rparr>)"
proof -
  let ?p = "panes w ! k"
  have wp: "wf_pane (length (heap w)) ?p" using wf_world_nth [OF wf k] .
  then have d: "distinct (items ?p)" and r: "length (heap w) \<notin> set (items ?p)"
    by (auto simp: wf_pane_def)
  from pane_swap [OF d i r] obtain p1 where
    p1: "addItem (Some (length (heap w))) (index + 1) ?p = Inr p1"
    and sw: "(if getActiveItem ?p = Some (items ?p ! index)
               then setActiveItem (Some (length (heap w))) (destroyItem (items ?p ! index) p1)
               else destroyItem (items ?p ! index) p1) = swapped ?p index (length (heap w))"
    by blast
  show ?thesis
    unfolding replaceItem_def
    using p1 sw by (auto simp: createPaneItem_Some [OF g] realItemFor_def Let_def split: if_splits)
qed

lemma wf_after_swap:
  assumes wf: "wf_world w" and k: "k < length (panes w)" and i: "index < length (items (panes w ! k))"
  shows "wf_world (w\<lparr>heap := heap w @ [x],
            panes := (panes w)[k := swapped (panes w ! k) index (length (heap w))]\<rparr>)"
proof -
  let ?p = "panes w ! k"
  have wp: "wf_pane (length (heap w)) ?p" using wf_world_nth [OF wf k] .
  have "wf_pane (Suc (length (heap w))) (swapped ?p index (length (heap w)))"
    using wp i
    by (auto simp: wf_pane_def swapped_simps distinct_list_update set_update_distinct
        dest!: set_update_subset_insert [THEN subsetD])
  moreover have "\<forall>p \<in> set (panes w). wf_pane (Suc (length (heap w))) p"
    using wf by (auto simp: wf_world_def wf_pane_def less_Suc_eq)
  ultimately show ?thesis
    by (auto simp: wf_world_def dest!: set_update_subset_insert [THEN subsetD])
qed

lemma frame_refl: "frame k w w"
  by (simp add: frame_def)

lemma lookup_heap: "x < length (heap w) \<Longrightarrow> lookup w x = Some (heap w ! x)"
  by (simp add: lookup_def)

lemma replaceLoop_skip:
  assumes "x = its ! n" "x < length (heap w)" "\<not> resolvable st (heap w ! x)"
  shows "replaceLoop st k its (Suc n) w = replaceLoop st k its n w"
  using assms
  by (auto simp: lookup_heap resolvable_def Let_def split: obj.splits option.splits)

lemma replaceLoop_replace:
  assumes "x = its ! n" "x < length (heap w)" "heap w ! x = GadgetPlaceholder gid raw"
    "gadgets st gid = Some g" "replaceItem st k n x gid g raw w = Inr w1"
  shows "replaceLoop st k its (Suc n) w = replaceLoop st k its n w1"
  using assms by (simp add: lookup_heap Let_def)

lemma replaceLoop_spec:
  assumes "wf_world w" "k < length (panes w)" "n \<le> length its"
    "length (items (panes w ! k)) = length its"
    "take n (items (panes w ! k)) = take n its"
  shows "\<exists>w'. replaceLoop st k its n w = Inr w' \<and> wf_world w' \<and> frame k w w'
           \<and> pane_rel_upto st n (heap w) (heap w') (panes w ! k) (panes w' ! k)"
  using assms
proof (induction n arbitrary: w)
  case 0
  then show ?case by (simp add: frame_refl pane_rel_upto_0)
next
  case (Suc n)
  let ?p = "panes w ! k"
  let ?x = "items ?p ! n"
  have n: "n < length (items ?p)" using Suc.prems by simp
  have x: "?x = its ! n"
    using Suc.prems(5) by (metis lessI nth_take)
  have tk: "take n (items ?p) = take n its"
    using Suc.prems(5) by (metis Suc_n_not_le_n nat_le_linear take_all take_take min.absorb1 le_SucI order_refl)
  have wp: "wf_pane (length (heap w)) ?p" using wf_world_nth [OF Suc.prems(1,2)] .
  then have xb: "?x < length (heap w)" and d: "distinct (items ?p)"
    and b: "\<forall>y \<in> set (items ?p). y < length (heap w)"
    using n by (auto simp: wf_pane_def)
  show ?case
  proof (cases "resolvable st (heap w ! ?x)")
    case False
    have eq: "replaceLoop st k its (Suc n) w = replaceLoop st k its n w"
      using replaceLoop_skip [OF x xb False] .
    from Suc.IH [OF Suc.prems(1,2) _ Suc.prems(4) tk] Suc.prems(3)
    obtain w' where w': "replaceLoop st k its n w = Inr w'" "wf_world w'" "frame k w w'"
      "pane_rel_upto st n (heap w) (heap w') ?p (panes w' ! k)"
      by auto
    from pane_rel_upto_skip [OF w'(4) False] eq w' show ?thesis by auto
  next
    case True
    then obtain gid raw g where ph: "heap w ! ?x = GadgetPlaceholder gid raw"
      and g: "gadgets st gid = Some g"
      by (auto simp: resolvable_def split: obj.splits)
    let ?w1 = "w\<lparr>heap := heap w @ [realItemFor g raw],
            panes := (panes w)[k := swapped ?p n (length (heap w))]\<rparr>"
    have ri: "replaceItem st k n ?x gid g raw w = Inr ?w1"
      using replaceItem_eq [OF Suc.prems(1,2) g n] .
    have eq: "replaceLoop st k its (Suc n) w = replaceLoop st k its n ?w1"
      using replaceLoop_replace [OF x xb ph g ri] .
    have wf1: "wf_world ?w1" using wf_after_swap [OF Suc.prems(1,2) n] .
    have k1: "k < length (panes ?w1)" using Suc.prems(2) by simp
    have p1: "panes ?w1 ! k = swapped ?p n (length (heap w))" using Suc.prems(2) by simp
    have l1: "length (items (panes ?w1 ! k)) = length its"
      using Suc.prems(2,4) by (simp add: swapped_simps)
    have t1: "take n (items (panes ?w1 ! k)) = take n its"
      using tk Suc.prems(2) by (simp add: swapped_simps)
    from Suc.IH [OF wf1 k1 _ l1 t1] Suc.prems(3)
    obtain w' where w': "replaceLoop st k its n ?w1 = Inr w'" "wf_world w'" "frame k ?w1 w'"
      "pane_rel_upto st n (heap ?w1) (heap w') (panes ?w1 ! k) (panes w' ! k)"
      by auto
    from w'(3) obtain ext where ext: "heap w' = heap w @ realItemFor g raw # ext"
      by (auto simp: frame_def)
    have fr: "frame k w w'"
      using w'(3) by (auto simp: frame_def)
    have "pane_rel_upto st (Suc n) (heap w) (heap w @ realItemFor g raw # ext) ?p (panes w' ! k)"
      using pane_rel_upto_swap [OF d b n ph g] w'(4) ext Suc.prems(2) by simp
    with eq w' fr ext show ?thesis by auto
  qed
qed

subsection \<open>All panes\<close>

lemma pane_rel_upto_full:
  "pane_rel_upto st (length (items p)) h h' p p' = pane_rel st h h' p p'"
  by (auto simp: pane_rel_upto_def pane_rel_def)

lemma item_rel_ext:
  assumes "item_rel st h h' x x'" "x < length h'"
  shows "item_rel st h (h' @ e) x x'"
  using assms by (auto simp: item_rel_def nth_append split: obj.splits option.splits)

lemma pane_rel_mono:
  assumes "pane_rel st (h @ e) h' p p'" "\<forall>x \<in> set (items p). x < length h"
  shows "pane_rel st h h' p p'"
  using assms unfolding pane_rel_def
  by (auto intro: item_rel_mono)

lemma pane_rel_ext:
  assumes "pane_rel st h h' p p'" "\<forall>x \<in> set (items p). x < length h'"
  shows "pane_rel st h (h' @ e) p p'"
  using assms unfolding pane_rel_def
  by (auto intro: item_rel_ext)

lemma forEachPane_spec:
  assumes "wf_world w" "distinct ks" "\<forall>k \<in> set ks. k < length (panes w)"
  shows "\<exists>w'. forEachPane st ks w = Inr w' \<and> wf_world w'
           \<and> (\<exists>ext. heap w' = heap w @ ext)
           \<and> length (panes w') = length (panes w)
           \<and> observerCalls w' = observerCalls w
           \<and> callbackCalls w' = callbackCalls w
           \<and> openCalls w' = openCalls w
           \<and> (\<forall>j < length (panes w).
                 if j \<in> set ks then pane_rel st (heap w) (heap w') (panes w ! j) (panes w' ! j)
                 else panes w' ! j = panes w ! j)"
  using assms
proof (induction ks arbitrary: w)
  case Nil
  then show ?case by simp
next
  case (Cons k ks)
  let ?its = "getItems (panes w ! k)"
  have k: "k < length (panes w)" using Cons.prems by simp
  from replaceLoop_spec [OF Cons.prems(1) k, of "length ?its" ?its st]
  obtain w1 where w1: "replaceLoop st k ?its (length ?its) w = Inr w1" "wf_world w1"
    "frame k w w1" "pane_rel st (heap w) (heap w1) (panes w ! k) (panes w1 ! k)"
    unfolding getItems_def pane_rel_upto_full [symmetric] by fastforce
  from w1(3) obtain e1 where e1: "heap w1 = heap w @ e1" by (auto simp: frame_def)
  have len1: "length (panes w1) = length (panes w)" using w1(3) by (simp add: frame_def)
  have oth1: "\<And>j. j < length (panes w) \<Longrightarrow> j \<noteq> k \<Longrightarrow> panes w1 ! j = panes w ! j"
    using w1(3) by (simp add: frame_def)
  have f1: "observerCalls w1 = observerCalls w" "callbackCalls w1 = callbackCalls w"
    "openCalls w1 = openCalls w"
    using w1(3) by (simp_all add: frame_def)
  have kb: "\<forall>k \<in> set ks. k < length (panes w1)" using Cons.prems len1 by simp
  have dks: "distinct ks" using Cons.prems(2) by simp
  from Cons.IH [OF w1(2) dks kb]
  obtain w' e2 where w': "forEachPane st ks w1 = Inr w'" "wf_world w'"
    "heap w' = heap w1 @ e2" "length (panes w') = length (panes w1)"
    "observerCalls w' = observerCalls w1" "callbackCalls w' = callbackCalls w1"
    "openCalls w' = openCalls w1"
    "\<forall>j < length (panes w1).
        if j \<in> set ks then pane_rel st (heap w1) (heap w') (panes w1 ! j) (panes w' ! j)
        else panes w' ! j = panes w1 ! j"
    by (elim exE conjE) (rule that, assumption+)
  have run: "forEachPane st (k # ks) w = Inr w'"
    using w1(1) w'(1) by (simp add: Let_def)
  have rel: "\<forall>j < length (panes w).
                 if j \<in> set (k # ks) then pane_rel st (heap w) (heap w') (panes w ! j) (panes w' ! j)
                 else panes w' ! j = panes w ! j"
  proof (intro allI impI)
    fix j assume j: "j < length (panes w)"
    have wpj: "\<forall>x \<in> set (items (panes w ! j)). x < length (heap w)"
      using wf_world_nth [OF Cons.prems(1) j] by (simp add: wf_pane_def)
    have wp1: "\<forall>x \<in> set (items (panes w ! j)). x < length (heap w1)"
      using wpj e1 by auto
    from w'(8) j len1 have rj: "if j \<in> set ks then pane_rel st (heap w1) (heap w') (panes w1 ! j) (panes w' ! j)
        else panes w' ! j = panes w1 ! j" by simp
    show "if j \<in> set (k # ks) then pane_rel st (heap w) (heap w') (panes w ! j) (panes w' ! j)
                 else panes w' ! j = panes w ! j"
    proof (cases "j = k")
      case True
      then have "j \<notin> set ks" using Cons.prems(2) by simp
      with rj True have "panes w' ! k = panes w1 ! k" by simp
      moreover have "pane_rel st (heap w) (heap w1 @ e2) (panes w ! k) (panes w1 ! k)"
        using pane_rel_ext [OF w1(4)] wp1 True by simp
      ultimately show ?thesis using True w'(3) by simp
    next
      case False
      then have p1: "panes w1 ! j = panes w ! j" using oth1 j by simp
      show ?thesis
      proof (cases "j \<in> set ks")
        case True
        with rj p1 have "pane_rel st (heap w @ e1) (heap w') (panes w ! j) (panes w' ! j)"
          using e1 by simp
        from pane_rel_mono [OF this wpj] True show ?thesis by simp
      next
        case nin: False
        with rj p1 False show ?thesis by simp
      qed
    qed
  qed
  have hp: "\<exists>ext. heap w' = heap w @ ext" using w'(3) e1 by simp
  have fr: "length (panes w') = length (panes w)" "observerCalls w' = observerCalls w"
    "callbackCalls w' = callbackCalls w" "openCalls w' = openCalls w"
    using w'(4,5,6,7) len1 f1 by simp_all
  from run w'(2) hp fr rel show ?case
    by blast
qed

lemma replacePlaceholders_spec:
  assumes "wf_world w"
  shows "\<exists>w'. replacePlaceholders st w = Inr w' \<and> wf_world w'
           \<and> (\<exists>ext. heap w' = heap w @ ext)
           \<and> length (panes w') = length (panes w)
           \<and> observerCalls w' = observerCalls w
           \<and> callbackCalls w' = callbackCalls w
           \<and> openCalls w' = openCalls w
           \<and> (\<forall>j < length (panes w).
                 pane_rel st (heap w) (heap w') (panes w ! j) (panes w' ! j))"
  using forEachPane_spec [OF assms, of "[0 ..< length (panes w)]" st]
  by (simp add: replacePlaceholders_def)

lemma forEachPane_append:
  "forEachPane st (xs @ ys) w =
     (case forEachPane st xs w of Inl e \<Rightarrow> Inl e | Inr w1 \<Rightarrow> forEachPane st ys w1)"
  by (induction xs arbitrary: w) (auto simp: Let_def split: sum.splits)

lemma upt_split3: "k < n \<Longrightarrow> [0 ..< n] = [0 ..< k] @ k # [Suc k ..< n]"
  by (metis le_add2 le_add_same_cancel2 upt_add_eq_append upt_conv_Cons less_imp_add_positive plus_nat.add_0)

lemma replacePlaceholders_pane_k:
  assumes wf: "wf_world w" and k: "k < length (panes w)"
  shows "\<exists>w1 w2 w' e1 e2.
           forEachPane st [0 ..< k] w = Inr w1 \<and> wf_world w1 \<and> heap w1 = heap w @ e1
           \<and> length (panes w1) = length (panes w) \<and> panes w1 ! k = panes w ! k
           \<and> replaceLoop st k (items (panes w ! k)) (length (items (panes w ! k))) w1 = Inr w2
           \<and> wf_world w2
           \<and> replacePlaceholders st w = Inr w' \<and> heap w' = heap w2 @ e2
           \<and> panes w' ! k = panes w2 ! k"
proof -
  let ?n = "length (panes w)"
  have d1: "distinct [0 ..< k]" and b1: "\<forall>j \<in> set [0 ..< k]. j < length (panes w)"
    using k by auto
  from forEachPane_spec [OF wf d1 b1, of st]
  obtain w1 e1 where w1: "forEachPane st [0 ..< k] w = Inr w1" "wf_world w1"
    "heap w1 = heap w @ e1" "length (panes w1) = length (panes w)"
    "\<forall>j < length (panes w).
                 if j \<in> set [0 ..< k] then pane_rel st (heap w) (heap w1) (panes w ! j) (panes w1 ! j)
                 else panes w1 ! j = panes w ! j"
    by (elim exE conjE) (rule that, assumption+)
  from w1(5) k have pk: "panes w1 ! k = panes w ! k" by simp
  have k1: "k < length (panes w1)" using k w1(4) by simp
  let ?its = "items (panes w ! k)"
  from replaceLoop_spec [OF w1(2) k1, of "length ?its" ?its st]
  obtain w2 where w2: "replaceLoop st k ?its (length ?its) w1 = Inr w2" "wf_world w2"
    "frame k w1 w2"
    using pk by auto
  have d2: "distinct [Suc k ..< ?n]" by simp
  have b2: "\<forall>j \<in> set [Suc k ..< ?n]. j < length (panes w2)"
    using w2(3) w1(4) by (simp add: frame_def)
  have k2: "k < length (panes w2)" using w2(3) k1 by (simp add: frame_def)
  from forEachPane_spec [OF w2(2) d2 b2, of st]
  obtain w' e2 where w': "forEachPane st [Suc k ..< ?n] w2 = Inr w'"
    "heap w' = heap w2 @ e2"
    "\<forall>j < length (panes w2).
                 if j \<in> set [Suc k ..< ?n] then pane_rel st (heap w2) (heap w') (panes w2 ! j) (panes w' ! j)
                 else panes w' ! j = panes w2 ! j"
    by (elim exE conjE) (rule that, assumption+)
  from w'(3) k2 have pk': "panes w' ! k = panes w2 ! k" by simp
  have "forEachPane st (k # [Suc k ..< ?n]) w1 = Inr w'"
    using w2(1) w'(1) pk by (simp add: getItems_def Let_def)
  then have "replacePlaceholders st w = Inr w'"
    unfolding replacePlaceholders_def upt_split3 [OF k] forEachPane_append
    using w1(1) by simp
  with w1 pk w2 w'(2) pk' show ?thesis by blast
qed

lemma sample_run: "replacePlaceholders sample_state sample_world = Inr sample_result"
  by (simp add: sample_defs run_defs)

lemma sample_wf: "wf_world sample_world"
  by (simp add: wf_world_def wf_pane_def sample_world_def)

section \<open>Properties of the commands\<close>

text \<open>
  C1. In a well-formed world, take a pane whose items are \<open>[a, b]\<close>, where \<open>a\<close> is a
  placeholder for the gadget \<open>X\<close>, \<open>b\<close> is not a placeholder, and \<open>X\<close> is registered.
  Then \<^verbatim>\<open>replacePlaceholders()\<close> returns, and the pane holds \<open>[a', b]\<close>, where \<open>a'\<close> is a
  new component item of the gadget registered as \<open>X\<close> and \<open>b\<close> is the object it was.
  The pane's log shows how: \<^verbatim>\<open>addItem(a', 1)\<close> gave \<open>[a, a', b]\<close>, right after the
  placeholder, then \<^verbatim>\<open>destroyItem(a)\<close> gave \<open>[a', b]\<close>. If \<open>a\<close> was the active item,
  \<open>a'\<close> is active afterwards (by a final \<^verbatim>\<open>setActiveItem(a')\<close>); if \<open>b\<close> was, it still is.
\<close>

theorem replacePlaceholders_two_items:
  assumes wf: "wf_world w" and k: "k < length (panes w)"
    and its: "items (panes w ! k) = [a, b]"
    and pa: "heap w ! a = GadgetPlaceholder X raw"
    and pb: "\<not> isPlaceholder (heap w ! b)"
    and g: "gadgets st X = Some g"
  shows "\<exists>w' a'. replacePlaceholders st w = Inr w'
           \<and> items (panes w' ! k) = [a', b]
           \<and> length (heap w) \<le> a'
           \<and> heap w' ! a' = realItemFor g raw
           \<and> heap w' ! b = heap w ! b
           \<and> (activeItem (panes w ! k) = Some a \<longrightarrow> activeItem (panes w' ! k) = Some a')
           \<and> (activeItem (panes w ! k) = Some b \<longrightarrow> activeItem (panes w' ! k) = Some b)
           \<and> mutations (panes w' ! k) = mutations (panes w ! k)
                @ [(AddItem a' 1, [a, a', b]), (DestroyItem a, [a', b])]
                @ (if activeItem (panes w ! k) = Some a then [(SetActiveItem (Some a'), [a', b])] else [])"
proof -
  from replacePlaceholders_pane_k [OF wf k, of st]
  obtain w1 w2 w' e1 e2 where
    w1: "wf_world w1" "heap w1 = heap w @ e1" "length (panes w1) = length (panes w)"
        "panes w1 ! k = panes w ! k"
    and w2: "replaceLoop st k (items (panes w ! k)) (length (items (panes w ! k))) w1 = Inr w2"
    and w': "replacePlaceholders st w = Inr w'" "heap w' = heap w2 @ e2"
        "panes w' ! k = panes w2 ! k"
    by blast
  have wp: "wf_pane (length (heap w)) (panes w ! k)" using wf_world_nth [OF wf k] .
  then have ab: "a < length (heap w)" "b < length (heap w)" "a \<noteq> b"
    using its by (auto simp: wf_pane_def)
  have a1: "a < length (heap w1)" "heap w1 ! a = GadgetPlaceholder X raw"
    and b1: "b < length (heap w1)" "heap w1 ! b = heap w ! b"
    using ab pa w1(2) by (simp_all add: nth_append)
  have nb: "\<not> resolvable st (heap w1 ! b)"
    using pb b1 by (auto simp: resolvable_def isPlaceholder_def split: obj.splits)
  have k1: "k < length (panes w1)" using k w1(3) by simp
  let ?a' = "length (heap w1)"
  let ?w2 = "w1\<lparr>heap := heap w1 @ [realItemFor g raw],
            panes := (panes w1)[k := swapped (panes w1 ! k) 0 ?a']\<rparr>"
  have i0: "0 < length (items (panes w1 ! k))" using its w1(4) by simp
  have ri: "replaceItem st k 0 a X g raw w1 = Inr ?w2"
    using replaceItem_eq [OF w1(1) k1 g i0, of raw] its w1(4) by simp
  have "replaceLoop st k [a, b] (Suc (Suc 0)) w1 = replaceLoop st k [a, b] (Suc 0) w1"
    using replaceLoop_skip [of b "[a, b]" "Suc 0" w1 st k] b1 nb by simp
  also have "\<dots> = replaceLoop st k [a, b] 0 ?w2"
    using replaceLoop_replace [of a "[a, b]" 0 w1 X raw st g k ?w2] a1 g ri by simp
  finally have "replaceLoop st k [a, b] (Suc (Suc 0)) w1 = Inr ?w2" by simp
  with w2 its have w2eq: "w2 = ?w2" by simp
  have pk: "panes w' ! k = swapped (panes w ! k) 0 ?a'"
    using w'(3) w2eq k1 w1(4) by simp
  have hp: "heap w' = heap w1 @ realItemFor g raw # e2"
    using w'(2) w2eq by simp
  have "items (panes w' ! k) = [?a', b]" using pk its by (simp add: swapped_simps)
  moreover have "length (heap w) \<le> ?a'" using w1(2) by simp
  moreover have "heap w' ! ?a' = realItemFor g raw" using hp by simp
  moreover have "heap w' ! b = heap w ! b" using hp b1 by (simp add: nth_append)
  moreover have "activeItem (panes w ! k) = Some a \<longrightarrow> activeItem (panes w' ! k) = Some ?a'"
    using pk its by (simp add: swapped_simps)
  moreover have "activeItem (panes w ! k) = Some b \<longrightarrow> activeItem (panes w' ! k) = Some b"
    using pk its ab by (simp add: swapped_simps)
  moreover have "mutations (panes w' ! k) = mutations (panes w ! k)
                @ [(AddItem ?a' 1, [a, ?a', b]), (DestroyItem a, [?a', b])]
                @ (if activeItem (panes w ! k) = Some a then [(SetActiveItem (Some ?a'), [?a', b])] else [])"
    using pk its by (simp add: swapped_simps)
  ultimately show ?thesis using w'(1) by blast
qed

theorem replacePlaceholders_two_items_witness:
  "wf_world sample_world \<and> (0::nat) < length (panes sample_world)
   \<and> items (panes sample_world ! 0) = [0, 1]
   \<and> heap sample_world ! 0 = GadgetPlaceholder ''counter'' (Some ''7'')
   \<and> \<not> isPlaceholder (heap sample_world ! 1)
   \<and> gadgets sample_state ''counter'' = Some counterGadget
   \<and> activeItem (panes sample_world ! 0) = Some 0
   \<and> (\<exists>w' a'. replacePlaceholders sample_state sample_world = Inr w'
          \<and> items (panes w' ! 0) = [a', 1]
          \<and> heap w' ! a' = realItemFor counterGadget (Some ''7'')
          \<and> activeItem (panes w' ! 0) = Some a'
          \<and> mutations (panes w' ! 0) =
               [(AddItem a' 1, [0, a', 1]), (DestroyItem 0, [a', 1]),
                (SetActiveItem (Some a'), [a', 1])])"
proof -
  have h2: "(0::nat) < length (panes sample_world)" by (simp add: sample_world_def)
  have h3: "items (panes sample_world ! 0) = [0, 1]" by (simp add: sample_world_def)
  have h4: "heap sample_world ! 0 = GadgetPlaceholder ''counter'' (Some ''7'')"
    by (simp add: sample_world_def)
  have h5: "\<not> isPlaceholder (heap sample_world ! 1)"
    by (simp add: sample_world_def isPlaceholder_def)
  have h6: "gadgets sample_state ''counter'' = Some counterGadget"
    by (simp add: sample_state_def)
  have h7: "activeItem (panes sample_world ! 0) = Some 0" by (simp add: sample_world_def)
  have h8: "mutations (panes sample_world ! 0) = []" by (simp add: sample_world_def)
  from replacePlaceholders_two_items [OF sample_wf h2 h3 h4 h5 h6] h7 h8
  have "\<exists>w' a'. replacePlaceholders sample_state sample_world = Inr w'
          \<and> items (panes w' ! 0) = [a', 1]
          \<and> heap w' ! a' = realItemFor counterGadget (Some ''7'')
          \<and> activeItem (panes w' ! 0) = Some a'
          \<and> mutations (panes w' ! 0) =
               [(AddItem a' 1, [0, a', 1]), (DestroyItem 0, [a', 1]),
                (SetActiveItem (Some a'), [a', 1])]"
    by auto
  with sample_wf h2 h3 h4 h5 h6 h7 show ?thesis by blast
qed

text \<open>
  C2. In a well-formed world, one replacement step (the loop body, for any pane, any
  position in it and any registered gadget) returns and logs \<^verbatim>\<open>addItem\<close> of the new item
  first, at the position after the placeholder, and \<^verbatim>\<open>destroyItem\<close> of the placeholder
  second. A whole run of \<^verbatim>\<open>replacePlaceholders()\<close> returns too, and in every pane every
  item sequence it passes through (one per logged call) is non-empty and at least as long
  as the pane's item sequence was when the run began.
\<close>

theorem replacePlaceholders_never_empty:
  assumes wf: "wf_world w"
  shows "(\<forall>k index gid g raw.
            k < length (panes w) \<and> index < length (items (panes w ! k)) \<and> gadgets st gid = Some g
            \<longrightarrow> (\<exists>w1 r rest. replaceItem st k index (items (panes w ! k) ! index) gid g raw w = Inr w1
                   \<and> mutations (panes w1 ! k) = mutations (panes w ! k)
                       @ (AddItem r (index + 1),
                          take (index + 1) (items (panes w ! k)) @ r # drop (index + 1) (items (panes w ! k)))
                       # (DestroyItem (items (panes w ! k) ! index), (items (panes w ! k))[index := r])
                       # rest))
         \<and> (\<exists>w'. replacePlaceholders st w = Inr w'
               \<and> (\<forall>k < length (panes w).
                     \<exists>es. mutations (panes w' ! k) = mutations (panes w ! k) @ es
                        \<and> (\<forall>e \<in> set es. snd e \<noteq> []
                               \<and> length (items (panes w ! k)) \<le> length (snd e))))"
proof (intro conjI allI impI)
  fix k index gid g raw
  assume h: "k < length (panes w) \<and> index < length (items (panes w ! k)) \<and> gadgets st gid = Some g"
  then have k: "k < length (panes w)" and i: "index < length (items (panes w ! k))"
    and g: "gadgets st gid = Some g" by simp_all
  let ?w1 = "w\<lparr>heap := heap w @ [realItemFor g raw],
            panes := (panes w)[k := swapped (panes w ! k) index (length (heap w))]\<rparr>"
  have "replaceItem st k index (items (panes w ! k) ! index) gid g raw w = Inr ?w1"
    using replaceItem_eq [OF wf k g i] .
  moreover have "mutations (panes ?w1 ! k) = mutations (panes w ! k)
                       @ (AddItem (length (heap w)) (index + 1),
                          take (index + 1) (items (panes w ! k)) @ length (heap w) # drop (index + 1) (items (panes w ! k)))
                       # (DestroyItem (items (panes w ! k) ! index), (items (panes w ! k))[index := length (heap w)])
                       # (if activeItem (panes w ! k) = Some (items (panes w ! k) ! index)
                          then [(SetActiveItem (Some (length (heap w))), (items (panes w ! k))[index := length (heap w)])] else [])"
    using k by (simp add: swapped_simps)
  ultimately show "\<exists>w1 r rest. replaceItem st k index (items (panes w ! k) ! index) gid g raw w = Inr w1
                   \<and> mutations (panes w1 ! k) = mutations (panes w ! k)
                       @ (AddItem r (index + 1),
                          take (index + 1) (items (panes w ! k)) @ r # drop (index + 1) (items (panes w ! k)))
                       # (DestroyItem (items (panes w ! k) ! index), (items (panes w ! k))[index := r])
                       # rest"
    by blast
next
  from replacePlaceholders_spec [OF wf, of st]
  obtain w' where w': "replacePlaceholders st w = Inr w'"
    "\<forall>j < length (panes w). pane_rel st (heap w) (heap w') (panes w ! j) (panes w' ! j)"
    by (elim exE conjE) (rule that, assumption+)
  have "\<forall>k < length (panes w).
          \<exists>es. mutations (panes w' ! k) = mutations (panes w ! k) @ es
             \<and> (\<forall>e \<in> set es. snd e \<noteq> [] \<and> length (items (panes w ! k)) \<le> length (snd e))"
  proof (intro allI impI)
    fix k assume k: "k < length (panes w)"
    let ?n = "length (items (panes w ! k))"
    from w'(2) k obtain es where es: "mutations (panes w' ! k) = mutations (panes w ! k) @ es"
      "\<forall>e \<in> set es. entry_ok ?n e"
      unfolding pane_rel_def by blast
    have "\<forall>e \<in> set es. snd e \<noteq> [] \<and> ?n \<le> length (snd e)"
    proof
      fix e assume e: "e \<in> set es"
      with es(2) have ok: "entry_ok ?n e" by simp
      then show "snd e \<noteq> [] \<and> ?n \<le> length (snd e)"
        by (auto simp: entry_ok_def split: paneCall.splits)
    qed
    with es(1) show "\<exists>es. mutations (panes w' ! k) = mutations (panes w ! k) @ es
             \<and> (\<forall>e \<in> set es. snd e \<noteq> [] \<and> length (items (panes w ! k)) \<le> length (snd e))"
      by blast
  qed
  with w'(1) show "\<exists>w'. replacePlaceholders st w = Inr w'
               \<and> (\<forall>k < length (panes w).
                     \<exists>es. mutations (panes w' ! k) = mutations (panes w ! k) @ es
                        \<and> (\<forall>e \<in> set es. snd e \<noteq> []
                               \<and> length (items (panes w ! k)) \<le> length (snd e)))"
    by blast
qed

theorem replacePlaceholders_never_empty_witness:
  "wf_world sample_world
   \<and> (0::nat) < length (panes sample_world) \<and> (0::nat) < length (items (panes sample_world ! 0))
   \<and> gadgets sample_state ''counter'' = Some counterGadget
   \<and> (\<exists>w1 r rest. replaceItem sample_state 0 0 (items (panes sample_world ! 0) ! 0)
                      ''counter'' counterGadget (Some ''7'') sample_world = Inr w1
          \<and> mutations (panes w1 ! 0) =
               (AddItem r 1, [0, r, 1]) # (DestroyItem 0, [r, 1]) # rest)
   \<and> replacePlaceholders sample_state sample_world = Inr sample_result
   \<and> mutations (panes sample_result ! 1) = [(AddItem 5 2, [2, 3, 5]), (DestroyItem 3, [2, 5])]
   \<and> (1::nat) < length (panes sample_world)
   \<and> (DestroyItem 3, [2, 5]) \<in> set (mutations (panes sample_result ! 1))
   \<and> snd (DestroyItem 3, [2::nat, 5]) \<noteq> []
   \<and> length (items (panes sample_world ! 1)) \<le> length (snd (DestroyItem 3, [2::nat, 5]))"
proof -
  have h2: "(0::nat) < length (panes sample_world) \<and> (0::nat) < length (items (panes sample_world ! 0))
      \<and> gadgets sample_state ''counter'' = Some counterGadget"
    by (simp add: sample_world_def sample_state_def)
  note t = replacePlaceholders_never_empty [OF sample_wf, of sample_state]
  from t h2
  have "\<exists>w1 r rest. replaceItem sample_state 0 0 (items (panes sample_world ! 0) ! 0)
                      ''counter'' counterGadget (Some ''7'') sample_world = Inr w1
          \<and> mutations (panes w1 ! 0) = mutations (panes sample_world ! 0)
                       @ (AddItem r (0 + 1),
                          take (0 + 1) (items (panes sample_world ! 0)) @ r # drop (0 + 1) (items (panes sample_world ! 0)))
                       # (DestroyItem (items (panes sample_world ! 0) ! 0), (items (panes sample_world ! 0))[0 := r])
                       # rest"
    by blast
  then have c1: "\<exists>w1 r rest. replaceItem sample_state 0 0 (items (panes sample_world ! 0) ! 0)
                      ''counter'' counterGadget (Some ''7'') sample_world = Inr w1
          \<and> mutations (panes w1 ! 0) =
               (AddItem r 1, [0, r, 1]) # (DestroyItem 0, [r, 1]) # rest"
    by (simp add: sample_world_def)
  from t sample_run
  have "\<forall>k < length (panes sample_world).
                     \<exists>es. mutations (panes sample_result ! k) = mutations (panes sample_world ! k) @ es
                        \<and> (\<forall>e \<in> set es. snd e \<noteq> []
                               \<and> length (items (panes sample_world ! k)) \<le> length (snd e))"
    by auto
  moreover have "\<forall>k < length (panes sample_world). mutations (panes sample_world ! k) = []"
    by (simp add: sample_world_def less_Suc_eq eval_nat_numeral)
  ultimately have c2: "\<forall>k < length (panes sample_world).
         \<forall>e \<in> set (mutations (panes sample_result ! k)).
            snd e \<noteq> [] \<and> length (items (panes sample_world ! k)) \<le> length (snd e)"
    by auto
  have c3: "mutations (panes sample_result ! 1) = [(AddItem 5 2, [2, 3, 5]), (DestroyItem 3, [2, 5])]"
    by (simp add: sample_result_def)
  have k1: "(1::nat) < length (panes sample_world)" by (simp add: sample_world_def)
  have m: "(DestroyItem 3, [2, 5]) \<in> set (mutations (panes sample_result ! 1))"
    unfolding c3 by simp
  from c2 k1 m have c4: "snd (DestroyItem 3, [2::nat, 5]) \<noteq> []
      \<and> length (items (panes sample_world ! 1)) \<le> length (snd (DestroyItem 3, [2::nat, 5]))"
    by blast
  from sample_wf h2 c1 sample_run c3 k1 m c4 show ?thesis by blast
qed

lemma replaceLoop_nothing:
  assumes "n \<le> length its" "\<forall>x \<in> set its. x < length (heap w) \<and> \<not> resolvable st (heap w ! x)"
  shows "replaceLoop st k its n w = Inr w"
  using assms
proof (induction n)
  case 0
  then show ?case by simp
next
  case (Suc n)
  then have "its ! n \<in> set its" by simp
  with Suc.prems have "its ! n < length (heap w)" "\<not> resolvable st (heap w ! (its ! n))"
    by blast+
  from replaceLoop_skip [OF refl this] Suc show ?case by simp
qed

lemma forEachPane_nothing:
  assumes "\<forall>k \<in> set ks. k < length (panes w)"
    "\<forall>p \<in> set (panes w). \<forall>x \<in> set (items p). x < length (heap w) \<and> \<not> resolvable st (heap w ! x)"
  shows "forEachPane st ks w = Inr w"
  using assms
proof (induction ks)
  case Nil
  then show ?case by simp
next
  case (Cons k ks)
  then have "panes w ! k \<in> set (panes w)" by simp
  with Cons.prems(2)
  have "\<forall>x \<in> set (items (panes w ! k)). x < length (heap w) \<and> \<not> resolvable st (heap w ! x)"
    by blast
  from replaceLoop_nothing [OF order_refl this] Cons show ?case
    by (simp add: getItems_def Let_def)
qed

lemma pane_rel_resolved:
  assumes rel: "pane_rel st h (h @ e) p p'" and b: "\<forall>x \<in> set (items p). x < length h"
  shows "\<forall>x \<in> set (items p'). x < length (h @ e) \<and> \<not> resolvable st ((h @ e) ! x)"
proof
  fix x assume "x \<in> set (items p')"
  then obtain i where i: "i < length (items p')" "x = items p' ! i"
    by (auto simp: in_set_conv_nth)
  from rel have len: "length (items p') = length (items p)"
    and ir: "\<forall>i < length (items p). item_rel st h (h @ e) (items p ! i) (items p' ! i)"
    unfolding pane_rel_def by blast+
  let ?y = "items p ! i"
  have y: "?y < length h" using b i len by simp
  have r: "item_rel st h (h @ e) ?y x" using ir i len by simp
  show "x < length (h @ e) \<and> \<not> resolvable st ((h @ e) ! x)"
  proof (cases "resolvable st (h ! ?y)")
    case True
    then obtain gid raw g where "h ! ?y = GadgetPlaceholder gid raw" "gadgets st gid = Some g"
      by (auto simp: resolvable_def split: obj.splits)
    with r have "x < length (h @ e)" "(h @ e) ! x = realItemFor g raw"
      by (simp_all add: item_rel_def)
    then show ?thesis by (simp add: resolvable_def realItemFor_def Let_def)
  next
    case False
    with r have "x = ?y"
      by (auto simp: item_rel_def resolvable_def split: obj.splits option.splits)
    with False y show ?thesis by (simp add: nth_append)
  qed
qed

text \<open>
  C3. In a well-formed world \<^verbatim>\<open>replacePlaceholders()\<close> returns a world on which a second
  call, with the same registry state, returns that very world: no pane call is logged,
  no object is created, nothing changes. After the first call no pane holds a
  placeholder of a registered gadget.
\<close>

theorem replacePlaceholders_idempotent:
  assumes wf: "wf_world w"
  shows "\<exists>w'. replacePlaceholders st w = Inr w' \<and> replacePlaceholders st w' = Inr w'"
proof -
  from replacePlaceholders_spec [OF wf, of st]
  obtain w' e where w': "replacePlaceholders st w = Inr w'" "heap w' = heap w @ e"
    "length (panes w') = length (panes w)"
    "\<forall>j < length (panes w). pane_rel st (heap w) (heap w') (panes w ! j) (panes w' ! j)"
    by (elim exE conjE) (rule that, assumption+)
  have "\<forall>p \<in> set (panes w'). \<forall>x \<in> set (items p).
          x < length (heap w') \<and> \<not> resolvable st (heap w' ! x)"
  proof
    fix p assume "p \<in> set (panes w')"
    then obtain j where j: "j < length (panes w)" "p = panes w' ! j"
      using w'(3) by (auto simp: in_set_conv_nth)
    have b: "\<forall>x \<in> set (items (panes w ! j)). x < length (heap w)"
      using wf_world_nth [OF wf j(1)] by (simp add: wf_pane_def)
    from w'(4) j have "pane_rel st (heap w) (heap w @ e) (panes w ! j) p"
      using w'(2) by simp
    from pane_rel_resolved [OF this b]
    show "\<forall>x \<in> set (items p). x < length (heap w') \<and> \<not> resolvable st (heap w' ! x)"
      using w'(2) by simp
  qed
  then have "forEachPane st [0 ..< length (panes w')] w' = Inr w'"
    by (intro forEachPane_nothing) simp_all
  with w'(1) show ?thesis by (auto simp: replacePlaceholders_def)
qed

theorem replacePlaceholders_idempotent_witness:
  "wf_world sample_world
   \<and> replacePlaceholders sample_state sample_world = Inr sample_result
   \<and> replacePlaceholders sample_state sample_result = Inr sample_result"
  using replacePlaceholders_idempotent [OF sample_wf, of sample_state] sample_run sample_wf
  by auto

text \<open>
  C4. For a gadget identifier that the registry state has no entry for,
  \<^verbatim>\<open>createPaneItem\<close> returns no item and leaves the world as it is: no call on the
  observer, no new object, no change to a pane.
\<close>

theorem createPaneItem_unregistered:
  "gadgets st gid = None \<Longrightarrow> createPaneItem st gid init w = (None, w)"
  by (simp add: createPaneItem_def)

theorem createPaneItem_unregistered_witness:
  "gadgets sample_state ''missing'' = None
   \<and> createPaneItem sample_state ''missing'' (Some ''7'') sample_world = (None, sample_world)"
proof -
  have h: "gadgets sample_state ''missing'' = None" by (simp add: sample_state_def)
  from createPaneItem_unregistered [OF h] h show ?thesis by blast
qed










text \<open>
  C6. In a well-formed world, where a pane holds at position \<open>i\<close> a placeholder with
  the raw state \<open>raw\<close> for a registered gadget \<open>g\<close>, \<^verbatim>\<open>replacePlaceholders()\<close> returns
  and the pane holds at position \<open>i\<close> a new component item of class \<open>g\<close> whose
  \<^verbatim>\<open>initialState\<close> prop, the value handed to \<^verbatim>\<open>createPaneItem\<close>, is
  \<open>deserializeState g\<close> applied to \<open>raw\<close> when \<open>g\<close> has that function, and \<open>raw\<close>
  itself (null included) when it has not.
\<close>

theorem replacePlaceholders_initial_state:
  assumes wf: "wf_world w" and k: "k < length (panes w)"
    and i: "i < length (items (panes w ! k))"
    and ph: "heap w ! (items (panes w ! k) ! i) = GadgetPlaceholder gid raw"
    and g: "gadgets st gid = Some g"
  shows "\<exists>w' c. replacePlaceholders st w = Inr w'
           \<and> i < length (items (panes w' ! k))
           \<and> length (heap w) \<le> items (panes w' ! k) ! i
           \<and> heap w' ! (items (panes w' ! k) ! i) = ComponentItem c
           \<and> componentClass c = g
           \<and> (\<forall>f. deserializeState g = Some f \<longrightarrow> initialState c = f raw)
           \<and> (deserializeState g = None \<longrightarrow> initialState c = raw)"
proof -
  from replacePlaceholders_spec [OF wf, of st]
  obtain w' where w': "replacePlaceholders st w = Inr w'"
    "\<forall>j < length (panes w). pane_rel st (heap w) (heap w') (panes w ! j) (panes w' ! j)"
    by (elim exE conjE) (rule that, assumption+)
  from w'(2) k have len: "length (items (panes w' ! k)) = length (items (panes w ! k))"
    and ir: "\<forall>i < length (items (panes w ! k)).
               item_rel st (heap w) (heap w') (items (panes w ! k) ! i) (items (panes w' ! k) ! i)"
    unfolding pane_rel_def by blast+
  from ir i have "item_rel st (heap w) (heap w') (items (panes w ! k) ! i) (items (panes w' ! k) ! i)"
    by blast
  with ph g have r: "length (heap w) \<le> items (panes w' ! k) ! i"
    "heap w' ! (items (panes w' ! k) ! i) = realItemFor g raw"
    by (simp_all add: item_rel_def)
  let ?c = "\<lparr>componentClass = g,
             initialState = (case deserializeState g of Some f \<Rightarrow> f raw | None \<Rightarrow> raw),
             cstate = construct g (case deserializeState g of Some f \<Rightarrow> f raw | None \<Rightarrow> raw),
             observers = [], emitted = []\<rparr>"
  have "heap w' ! (items (panes w' ! k) ! i) = ComponentItem ?c"
    using r(2) by (simp add: realItemFor_def Let_def)
  moreover have "componentClass ?c = g" by simp
  moreover have "\<forall>f. deserializeState g = Some f \<longrightarrow> initialState ?c = f raw" by simp
  moreover have "deserializeState g = None \<longrightarrow> initialState ?c = raw" by simp
  ultimately show ?thesis using w'(1) i len r(1) by (intro exI [of _ w'] exI [of _ ?c]) simp
qed

theorem replacePlaceholders_initial_state_witness:
  "wf_world sample_world
   \<and> heap sample_world ! (items (panes sample_world ! 0) ! 0) = GadgetPlaceholder ''counter'' (Some ''7'')
   \<and> gadgets sample_state ''counter'' = Some counterGadget
   \<and> deserializeState counterGadget \<noteq> None
   \<and> heap sample_world ! (items (panes sample_world ! 1) ! 1) = GadgetPlaceholder ''plain'' None
   \<and> gadgets sample_state ''plain'' = Some plainGadget
   \<and> deserializeState plainGadget = None
   \<and> (\<exists>w' c d. replacePlaceholders sample_state sample_world = Inr w'
         \<and> heap w' ! (items (panes w' ! 0) ! 0) = ComponentItem c
         \<and> initialState c = Some ''count:7''
         \<and> heap w' ! (items (panes w' ! 1) ! 1) = ComponentItem d
         \<and> initialState d = None)"
proof -
  have k0: "(0::nat) < length (panes sample_world)" and i0: "(0::nat) < length (items (panes sample_world ! 0))"
    and p0: "heap sample_world ! (items (panes sample_world ! 0) ! 0) = GadgetPlaceholder ''counter'' (Some ''7'')"
    and g0: "gadgets sample_state ''counter'' = Some counterGadget"
    and k1: "(1::nat) < length (panes sample_world)" and i1: "(1::nat) < length (items (panes sample_world ! 1))"
    and p1: "heap sample_world ! (items (panes sample_world ! 1) ! 1) = GadgetPlaceholder ''plain'' None"
    and g1: "gadgets sample_state ''plain'' = Some plainGadget"
    by (simp_all add: sample_world_def sample_state_def)
  have d0: "deserializeState counterGadget =
      Some (\<lambda>raw. case raw of None \<Rightarrow> None | Some s \<Rightarrow> Some (''count:'' @ s))"
    and d1: "deserializeState plainGadget = None"
    by (simp_all add: counterGadget_def plainGadget_def)
  from replacePlaceholders_initial_state [OF sample_wf k0 i0 p0 g0] d0
  obtain w' c where a: "replacePlaceholders sample_state sample_world = Inr w'"
    "heap w' ! (items (panes w' ! 0) ! 0) = ComponentItem c" "initialState c = Some ''count:7''"
    by auto
  from replacePlaceholders_initial_state [OF sample_wf k1 i1 p1 g1] d1
  obtain w'' d where b: "replacePlaceholders sample_state sample_world = Inr w''"
    "heap w'' ! (items (panes w'' ! 1) ! 1) = ComponentItem d" "initialState d = None"
    by auto
  from a(1) b(1) have "w'' = w'" by simp
  with a b sample_wf p0 g0 d0 p1 g1 d1 show ?thesis by auto
qed

lemma notify_component:
  "lookup w x = Some (ComponentItem c) \<Longrightarrow>
   notify x w = w\<lparr>heap := (heap w)[x := ComponentItem (c\<lparr>emitted := emitted c @ [cstate c]\<rparr>)],
                  callbackCalls := callbackCalls w @ observers c\<rparr>"
  by (simp add: notify_def)

text \<open>
  C7. For a component item \<open>c\<close>, \<^verbatim>\<open>notify()\<close> pushes the component's state to the
  channel and calls every subscribed callback once, in subscription order. A second
  \<^verbatim>\<open>notify()\<close> right after, with the state unchanged, does the same again: the channel
  has carried the same state twice and every callback has been called twice.
  \<^verbatim>\<open>subscribe(cb)\<close> adds \<open>cb\<close> to the subscribers, and the next \<^verbatim>\<open>notify()\<close> calls it.
\<close>

theorem notify_no_dedup:
  assumes "lookup w x = Some (ComponentItem c)"
  shows "callbackCalls (notify x w) = callbackCalls w @ observers c
       \<and> lookup (notify x w) x = Some (ComponentItem (c\<lparr>emitted := emitted c @ [cstate c]\<rparr>))
       \<and> callbackCalls (notify x (notify x w)) = callbackCalls w @ observers c @ observers c
       \<and> lookup (notify x (notify x w)) x =
           Some (ComponentItem (c\<lparr>emitted := emitted c @ [cstate c, cstate c]\<rparr>))
       \<and> lookup (subscribe x cb w) x =
           Some (ComponentItem (c\<lparr>observers := observers c @ [cb]\<rparr>))
       \<and> callbackCalls (notify x (subscribe x cb w)) = callbackCalls w @ observers c @ [cb]"
proof -
  from assms have x: "x < length (heap w)" and hx: "heap w ! x = ComponentItem c"
    by (auto simp: lookup_def split: if_splits)
  let ?c1 = "c\<lparr>emitted := emitted c @ [cstate c]\<rparr>"
  have n1: "notify x w = w\<lparr>heap := (heap w)[x := ComponentItem ?c1],
                            callbackCalls := callbackCalls w @ observers c\<rparr>"
    using notify_component [OF assms] .
  have l1: "lookup (notify x w) x = Some (ComponentItem ?c1)"
    using x by (simp add: n1 lookup_def)
  have n2: "notify x (notify x w) =
      (notify x w)\<lparr>heap := (heap (notify x w))[x := ComponentItem (?c1\<lparr>emitted := emitted ?c1 @ [cstate ?c1]\<rparr>)],
                     callbackCalls := callbackCalls (notify x w) @ observers ?c1\<rparr>"
    using notify_component [OF l1] .
  have s1: "subscribe x cb w = w\<lparr>heap := (heap w)[x := ComponentItem (c\<lparr>observers := observers c @ [cb]\<rparr>)]\<rparr>"
    using assms by (simp add: subscribe_def)
  have ls: "lookup (subscribe x cb w) x = Some (ComponentItem (c\<lparr>observers := observers c @ [cb]\<rparr>))"
    using x by (simp add: s1 lookup_def)
  have ns: "callbackCalls (notify x (subscribe x cb w)) = callbackCalls w @ observers c @ [cb]"
    using notify_component [OF ls] by (simp add: s1)
  have "callbackCalls (notify x w) = callbackCalls w @ observers c" by (simp add: n1)
  moreover have "callbackCalls (notify x (notify x w)) = callbackCalls w @ observers c @ observers c"
    by (simp add: n2) (simp add: n1)
  moreover have "lookup (notify x (notify x w)) x =
           Some (ComponentItem (c\<lparr>emitted := emitted c @ [cstate c, cstate c]\<rparr>))"
    using x by (simp add: n2 lookup_def) (simp add: n1)
  ultimately show ?thesis using l1 ls ns by blast
qed

theorem notify_no_dedup_witness:
  "fst (createPaneItem sample_state ''plain'' None sample_world) = Some 4
   \<and> lookup subscribed_world 4 =
       Some (ComponentItem \<lparr>componentClass = plainGadget, initialState = None, cstate = None,
                            observers = [10, 11], emitted = []\<rparr>)
   \<and> callbackCalls subscribed_world = []
   \<and> callbackCalls (notify 4 subscribed_world) = [10, 11]
   \<and> callbackCalls (notify 4 (notify 4 subscribed_world)) = [10, 11, 10, 11]
   \<and> lookup (notify 4 (notify 4 subscribed_world)) 4 =
       Some (ComponentItem \<lparr>componentClass = plainGadget, initialState = None, cstate = None,
                            observers = [10, 11], emitted = [None, None]\<rparr>)"
proof -
  have c: "fst (createPaneItem sample_state ''plain'' None sample_world) = Some 4"
    by (simp add: createPaneItem_def sample_defs)
  have h: "lookup subscribed_world 4 =
       Some (ComponentItem \<lparr>componentClass = plainGadget, initialState = None, cstate = None,
                            observers = [10, 11], emitted = []\<rparr>)"
    by (simp add: subscribed_world_def subscribe_def createPaneItem_def lookup_def sample_defs
        eval_nat_numeral)
  have e: "callbackCalls subscribed_world = []"
    by (simp add: subscribed_world_def subscribe_def createPaneItem_def lookup_def sample_defs
        eval_nat_numeral)
  from notify_no_dedup [OF h, of 12] c h e show ?thesis by simp
qed

text \<open>
  C8. \<^verbatim>\<open>openUri(uri)\<close> returns no item and changes nothing when the parser returns
  null; otherwise its result and its effect are those of \<^verbatim>\<open>createPaneItem\<close> for the parsed
  gadget identifier, with no initial state.
\<close>

theorem openUri_delegates:
  "(parse uri = None \<longrightarrow> openUri parse st uri w = (None, w))
   \<and> (\<forall>parsed. parse uri = Some parsed \<longrightarrow>
          openUri parse st uri w = createPaneItem st (gadgetId parsed) None w)"
  by (simp add: openUri_def)

theorem openUri_delegates_witness:
  "sample_parse ''file:///tmp/a.txt'' = None
   \<and> openUri sample_parse sample_state ''file:///tmp/a.txt'' sample_world = (None, sample_world)
   \<and> sample_parse ''gadget://plain'' = Some \<lparr>gadgetId = ''plain''\<rparr>
   \<and> openUri sample_parse sample_state ''gadget://plain'' sample_world
       = createPaneItem sample_state ''plain'' None sample_world
   \<and> fst (openUri sample_parse sample_state ''gadget://plain'' sample_world) = Some 4"
proof -
  have h1: "sample_parse ''file:///tmp/a.txt'' = None" by (simp add: sample_parse_def)
  have h2: "sample_parse ''gadget://plain'' = Some \<lparr>gadgetId = ''plain''\<rparr>"
    by (simp add: sample_parse_def)
  have c: "fst (createPaneItem sample_state ''plain'' None sample_world) = Some 4"
    by (simp add: createPaneItem_def sample_defs)
  from openUri_delegates [of sample_parse "''file:///tmp/a.txt''" sample_state sample_world] h1
  have a: "openUri sample_parse sample_state ''file:///tmp/a.txt'' sample_world = (None, sample_world)"
    by blast
  from openUri_delegates [of sample_parse "''gadget://plain''" sample_state sample_world] h2
  have b: "openUri sample_parse sample_state ''gadget://plain'' sample_world
       = createPaneItem sample_state ''plain'' None sample_world"
    by simp
  from h1 a h2 b c show ?thesis by simp
qed

section \<open>Properties of tokenizeType\<close>

lemma indexOf_None: "indexOf xs c = None \<longleftrightarrow> c \<notin> set xs"
  by (induction xs) auto

lemma indexOf_Some:
  "indexOf xs c = Some i \<Longrightarrow> i < length xs \<and> xs ! i = c \<and> c \<notin> set (take i xs)"
  by (induction xs arbitrary: i) (auto split: if_splits)

lemma lastIndexOf_None: "lastIndexOf xs c = None \<longleftrightarrow> c \<notin> set xs"
  by (induction xs) (auto split: option.splits)

lemma lastIndexOf_mem: "lastIndexOf xs c = Some j \<Longrightarrow> c \<in> set xs"
  using lastIndexOf_None [of xs c] by auto

lemma lastIndexOf_Some:
  "lastIndexOf xs c = Some j \<Longrightarrow> j < length xs \<and> xs ! j = c \<and> c \<notin> set (drop (Suc j) xs)"
  by (induction xs arbitrary: j) (auto split: option.splits if_splits simp: lastIndexOf_None)

lemma substring_prefix: "b \<le> length s \<Longrightarrow> substring s 0 b = take b s"
  by (simp add: substring_def Let_def)

lemma substringFrom_drop: "substringFrom s a = drop a s"
  by (cases "a \<le> length s") (simp_all add: substringFrom_def substring_def Let_def min_def max_def)

text \<open>
  C9. A type longer than 50 code units that contains a \<^verbatim>\<open><\<close> and a \<^verbatim>\<open>>\<close> becomes three
  tokens: the text up to and including the first \<^verbatim>\<open><\<close>, the ellipsis \<^verbatim>\<open>...\<close>, and the
  text from the last \<^verbatim>\<open>>\<close> on. A type of at most 50 code units is one plain token
  holding the type unchanged.
\<close>

theorem tokenizeType_elides:
  "(LONG_TYPE_LENGTH < length t \<and> LT_CHAR \<in> set t \<and> GT_CHAR \<in> set t \<longrightarrow>
      (\<exists>i j. i < length t \<and> t ! i = LT_CHAR \<and> LT_CHAR \<notin> set (take i t)
           \<and> j < length t \<and> t ! j = GT_CHAR \<and> GT_CHAR \<notin> set (drop (Suc j) t)
           \<and> tokenizeType t =
               [plain (take (Suc i) t), string_token (js ''...''), plain (drop j t)]))
   \<and> (length t \<le> LONG_TYPE_LENGTH \<longrightarrow> tokenizeType t = [plain t])"
proof (intro conjI impI)
  assume h: "LONG_TYPE_LENGTH < length t \<and> LT_CHAR \<in> set t \<and> GT_CHAR \<in> set t"
  then obtain i where i: "indexOf t LT_CHAR = Some i"
    using indexOf_None [of t LT_CHAR] by (cases "indexOf t LT_CHAR") auto
  from h obtain j where j: "lastIndexOf t GT_CHAR = Some j"
    using lastIndexOf_None [of t GT_CHAR] by (cases "lastIndexOf t GT_CHAR") auto
  note fi = indexOf_Some [OF i] and fj = lastIndexOf_Some [OF j]
  have "tokenizeType t = [plain (take (Suc i) t), string_token (js ''...''), plain (drop j t)]"
    using h i j fi by (simp add: tokenizeType_def substring_prefix substringFrom_drop)
  with fi fj show "\<exists>i j. i < length t \<and> t ! i = LT_CHAR \<and> LT_CHAR \<notin> set (take i t)
           \<and> j < length t \<and> t ! j = GT_CHAR \<and> GT_CHAR \<notin> set (drop (Suc j) t)
           \<and> tokenizeType t =
               [plain (take (Suc i) t), string_token (js ''...''), plain (drop j t)]"
    by blast
next
  assume "length t \<le> LONG_TYPE_LENGTH"
  then show "tokenizeType t = [plain t]"
    by (simp add: tokenizeType_def)
qed

theorem tokenizeType_elides_witness:
  "(LONG_TYPE_LENGTH < length long_template_type \<and> LT_CHAR \<in> set long_template_type
      \<and> GT_CHAR \<in> set long_template_type)
   \<and> (\<exists>i j. long_template_type ! i = LT_CHAR \<and> long_template_type ! j = GT_CHAR
         \<and> tokenizeType long_template_type =
             [plain (take (Suc i) long_template_type), string_token (js ''...''),
              plain (drop j long_template_type)])
   \<and> length short_type \<le> LONG_TYPE_LENGTH
   \<and> tokenizeType short_type = [plain short_type]"
proof -
  have h1: "LONG_TYPE_LENGTH < length long_template_type \<and> LT_CHAR \<in> set long_template_type
      \<and> GT_CHAR \<in> set long_template_type"
    by (simp add: long_template_type_def js_def LONG_TYPE_LENGTH_def LT_CHAR_def GT_CHAR_def)
  have h2: "length short_type \<le> LONG_TYPE_LENGTH"
    by (simp add: short_type_def js_def LONG_TYPE_LENGTH_def)
  from h1 h2 tokenizeType_elides [of long_template_type] tokenizeType_elides [of short_type]
  show ?thesis by blast
qed

text \<open>
  C10. A type longer than 50 code units that contains no \<^verbatim>\<open><\<close>, or a \<^verbatim>\<open><\<close> but no
  \<^verbatim>\<open>>\<close>, is not elided: the result is one plain token holding the type unchanged.
\<close>

theorem tokenizeType_no_template:
  "LONG_TYPE_LENGTH < length t
     \<and> (LT_CHAR \<notin> set t \<or> (LT_CHAR \<in> set t \<and> GT_CHAR \<notin> set t))
   \<Longrightarrow> tokenizeType t = [plain t]"
  by (auto simp: tokenizeType_def indexOf_None split: option.splits dest: lastIndexOf_mem)

theorem tokenizeType_no_template_witness:
  "LONG_TYPE_LENGTH < length long_plain_type \<and> LT_CHAR \<notin> set long_plain_type
     \<and> tokenizeType long_plain_type = [plain long_plain_type]"
proof -
  have h: "LONG_TYPE_LENGTH < length long_plain_type \<and> LT_CHAR \<notin> set long_plain_type"
    by (simp add: long_plain_type_def js_def LONG_TYPE_LENGTH_def LT_CHAR_def)
  with tokenizeType_no_template [of long_plain_type] show ?thesis by blast
qed

end
